theory Spec2Isabelle
  imports Complex_Main "HOL-Library.Word" "HOL-Library.Log_Nat"
begin

section \<open>The fixed-step drivers of solver.hpp\<close>

text \<open>
  The header declares two function templates in namespace \<open>solver\<close>:
  \<^verbatim>\<open>
  constexpr void integrate_one_step(Stepper &stepper, System &system,
      container_type_t &state, time_type_t &time, time_type_t time_delta,
      Observer &observer) noexcept
  {
      stepper.do_step(system, state, time, time_delta);
      observer(state, time);
      time += time_delta;
  }

  constexpr unsigned integrate_const(Stepper &stepper, System &system,
      container_type_t &state, time_type_t start_time, time_type_t end_time,
      time_type_t time_delta, Observer &observer) noexcept
  {
      unsigned iteration = 0;
      observer(state, start_time);
      while (start_time < end_time) {
          integrate_one_step(stepper, system, state, start_time, time_delta, observer);
          ++iteration;
      }
      return iteration;
  }
  \<close>
  The time type is a template parameter of the stepper; the programs of the repository
  that use the drivers take \<open>double\<close> for it. A time is modelled by the real number it
  denotes (the infinities and NaN are left out), and \<open>start_time < end_time\<close> by the order
  of the reals, which is what the comparison of two such values computes. The sum in
  \<open>time += time_delta\<close> is different: the type rounds it. The addition is therefore a
  parameter \<open>add\<close> of the model, and nothing is assumed of it; \<open>double_add\<close> below is the
  addition of binary64. The counter \<open>iteration\<close> is an \<open>unsigned\<close>, a 32-bit word whose
  increment wraps.
\<close>

subsection \<open>Data model\<close>

type_synonym time_type_t = real

type_synonym add_t = "time_type_t \<Rightarrow> time_type_t \<Rightarrow> time_type_t"

text \<open>
  The stepper, the system and the observer are template parameters, called through
  references. What the drivers do with them is recorded in the order of the calls:
  a \<open>Do_step\<close> event holds the state, time and increment handed to
  \<open>stepper.do_step\<close>, an \<open>Observe\<close> event the state and time handed to the observer.
\<close>

datatype 'x event =
    is_Do_step: Do_step 'x time_type_t time_type_t
  | is_Observe: Observe 'x time_type_t

text \<open>
  The objects the drivers reach through references: the stepper, the system, the state
  container and the observer. The observer is represented by the log of the calls made
  on the collaborators, which is all an observer can depend on.
\<close>

record ('st, 'sys, 'x) refs =
  stepper :: 'st
  system :: 'sys
  state :: 'x
  calls :: "'x event list"

text \<open>
  The stepper classes (stepper_euler.hpp, stepper_rk4.hpp) are included by the header
  and are not part of it; the member \<open>do_step\<close> is therefore a parameter of the model.
  It receives the stepper, the system, the state, the time and the increment, takes the
  two times by value, and may change the stepper, the system and the state.
\<close>

type_synonym ('st, 'sys, 'x) do_step_t =
  "'st \<Rightarrow> 'sys \<Rightarrow> 'x \<Rightarrow> time_type_t \<Rightarrow> time_type_t \<Rightarrow> 'st \<times> 'sys \<times> 'x"

text \<open>The statement \<open>stepper.do_step(system, state, time, time_delta)\<close>.\<close>

definition call_do_step ::
  "('st, 'sys, 'x) do_step_t \<Rightarrow> time_type_t \<Rightarrow> time_type_t \<Rightarrow>
   ('st, 'sys, 'x) refs \<Rightarrow> ('st, 'sys, 'x) refs" where
  "call_do_step do_step t time_delta r =
     (case do_step (stepper r) (system r) (state r) t time_delta of
        (st', sys', x') \<Rightarrow>
          r\<lparr>stepper := st', system := sys', state := x',
            calls := calls r @ [Do_step (state r) t time_delta]\<rparr>)"

text \<open>The statement \<open>observer(state, time)\<close>.\<close>

definition observer ::
  "time_type_t \<Rightarrow> ('st, 'sys, 'x) refs \<Rightarrow> ('st, 'sys, 'x) refs" where
  "observer t r = r\<lparr>calls := calls r @ [Observe (state r) t]\<rparr>"

subsection \<open>integrate_one_step\<close>

text \<open>
  The parameter \<open>time\<close> is a reference: the function returns the objects behind the
  references together with the new value of \<open>time\<close>. The function itself is \<open>void\<close>.
\<close>

definition integrate_one_step ::
  "add_t \<Rightarrow> ('st, 'sys, 'x) do_step_t \<Rightarrow> ('st, 'sys, 'x) refs \<Rightarrow> time_type_t \<Rightarrow>
   time_type_t \<Rightarrow> ('st, 'sys, 'x) refs \<times> time_type_t" where
  "integrate_one_step add do_step r t time_delta =
     (let r1 = call_do_step do_step t time_delta r;
          r2 = observer t r1
      in (r2, add t time_delta))"

subsection \<open>integrate_const\<close>

text \<open>
  The variables the loop of \<open>integrate_const\<close> works on: the referenced objects, the
  by-value parameter \<open>start_time\<close>, which the loop advances, and the counter.
\<close>

record ('st, 'sys, 'x) frame =
  objects :: "('st, 'sys, 'x) refs"
  start_time :: time_type_t
  iteration :: "32 word"

text \<open>The body of the while loop: one call of \<open>integrate_one_step\<close>, then \<open>++iteration\<close>.\<close>

definition loop_body ::
  "add_t \<Rightarrow> ('st, 'sys, 'x) do_step_t \<Rightarrow> time_type_t \<Rightarrow> ('st, 'sys, 'x) frame \<Rightarrow>
   ('st, 'sys, 'x) frame" where
  "loop_body add do_step time_delta f =
     (case integrate_one_step add do_step (objects f) (start_time f) time_delta of
        (r', t') \<Rightarrow> \<lparr>objects = r', start_time = t', iteration = iteration f + 1\<rparr>)"

text \<open>
  The loop \<open>while (start_time < end_time)\<close>. Nothing bounds the number of iterations,
  so the loop is a partial function: \<open>None\<close> is a loop that never exits.
\<close>

partial_function (option) while_loop ::
  "add_t \<Rightarrow> ('st, 'sys, 'x) do_step_t \<Rightarrow> time_type_t \<Rightarrow> time_type_t \<Rightarrow>
   ('st, 'sys, 'x) frame \<Rightarrow> ('st, 'sys, 'x) frame option" where
  "while_loop add do_step end_time time_delta f =
     (if start_time f < end_time
      then while_loop add do_step end_time time_delta (loop_body add do_step time_delta f)
      else Some f)"

text \<open>
  The same loop cut off after \<open>n\<close> iterations: the frame the loop has reached when it
  has gone through its body \<open>n\<close> times, or the frame it has exited with if that came
  first. It describes every point of a run, also of a run that never ends.
\<close>

fun while_loop_upto ::
  "add_t \<Rightarrow> ('st, 'sys, 'x) do_step_t \<Rightarrow> time_type_t \<Rightarrow> time_type_t \<Rightarrow> nat \<Rightarrow>
   ('st, 'sys, 'x) frame \<Rightarrow> ('st, 'sys, 'x) frame" where
  "while_loop_upto add do_step end_time time_delta 0 f = f"
| "while_loop_upto add do_step end_time time_delta (Suc n) f =
     (if start_time f < end_time
      then while_loop_upto add do_step end_time time_delta n (loop_body add do_step time_delta f)
      else f)"

text \<open>The frame \<open>integrate_const\<close> enters its loop with: the observer has been called once.\<close>

definition entry ::
  "('st, 'sys, 'x) refs \<Rightarrow> time_type_t \<Rightarrow> ('st, 'sys, 'x) frame" where
  "entry r start = \<lparr>objects = observer start r, start_time = start, iteration = 0\<rparr>"

text \<open>
  \<open>integrate_const\<close> returns \<open>iteration\<close>; the result of the model is the whole final
  frame, so that the objects behind the references and the last value of \<open>start_time\<close>
  can be read off as well.
\<close>

definition integrate_const ::
  "add_t \<Rightarrow> ('st, 'sys, 'x) do_step_t \<Rightarrow> ('st, 'sys, 'x) refs \<Rightarrow> time_type_t \<Rightarrow>
   time_type_t \<Rightarrow> time_type_t \<Rightarrow> ('st, 'sys, 'x) frame option" where
  "integrate_const add do_step r start end_time time_delta =
     while_loop add do_step end_time time_delta (entry r start)"

subsection \<open>Reading the log of calls\<close>

text \<open>The sequence of observer invocations in a log, as pairs of state and time.\<close>

fun observations :: "'x event list \<Rightarrow> ('x \<times> time_type_t) list" where
  "observations [] = []"
| "observations (Observe x t # es) = (x, t) # observations es"
| "observations (Do_step x t d # es) = observations es"

text \<open>The sequence of \<open>do_step\<close> invocations in a log.\<close>

fun do_steps :: "'x event list \<Rightarrow> ('x \<times> time_type_t \<times> time_type_t) list" where
  "do_steps [] = []"
| "do_steps (Do_step x t d # es) = (x, t, d) # do_steps es"
| "do_steps (Observe x t # es) = do_steps es"

text \<open>The calls a driver has made: what the log holds beyond the log it started from.\<close>

definition issued :: "('st, 'sys, 'x) refs \<Rightarrow> ('st, 'sys, 'x) refs \<Rightarrow> 'x event list" where
  "issued r r' = drop (length (calls r)) (calls r')"

definition observer_calls :: "('st, 'sys, 'x) refs \<Rightarrow> ('st, 'sys, 'x) frame \<Rightarrow> nat" where
  "observer_calls r f = length (observations (issued r (objects f)))"

definition do_step_calls :: "('st, 'sys, 'x) refs \<Rightarrow> ('st, 'sys, 'x) frame \<Rightarrow> nat" where
  "do_step_calls r f = length (do_steps (issued r (objects f)))"

text \<open>The events issued before the first call of \<open>do_step\<close>.\<close>

definition before_stepping :: "'x event list \<Rightarrow> 'x event list" where
  "before_stepping es = takeWhile is_Observe es"

subsection \<open>The fixed driver in the words of its description\<close>

text \<open>
  The description of the fixed driver reads: it invokes \<open>observer(state, start_time)\<close>
  once before any stepping, then repeatedly calls \<open>integrate_one_step\<close> while
  \<open>time < end_time\<close>, returning the number of steps taken. The second half, cut off after
  \<open>n\<close> calls, on the referenced objects, the time and the number of steps taken so far:
\<close>

fun repeat_one_step ::
  "add_t \<Rightarrow> ('st, 'sys, 'x) do_step_t \<Rightarrow> time_type_t \<Rightarrow> time_type_t \<Rightarrow> nat \<Rightarrow>
   ('st, 'sys, 'x) refs \<times> time_type_t \<times> nat \<Rightarrow> ('st, 'sys, 'x) refs \<times> time_type_t \<times> nat" where
  "repeat_one_step add do_step end_time time_delta 0 c = c"
| "repeat_one_step add do_step end_time time_delta (Suc n) (r, t, steps) =
     (if t < end_time
      then (case integrate_one_step add do_step r t time_delta of
              (r', t') \<Rightarrow> repeat_one_step add do_step end_time time_delta n (r', t', Suc steps))
      else (r, t, steps))"

subsection \<open>Sums that the time type computes without rounding\<close>

text \<open>
  The first \<open>n\<close> sums of a run from \<open>start\<close> with increment \<open>time_delta\<close> are exact: adding
  the increment to \<open>start + k \<cdot> time_delta\<close> gives \<open>start + (k + 1) \<cdot> time_delta\<close>.
\<close>

definition exact_sums :: "add_t \<Rightarrow> time_type_t \<Rightarrow> time_type_t \<Rightarrow> nat \<Rightarrow> bool" where
  "exact_sums add start time_delta n \<longleftrightarrow>
     (\<forall>k \<in> {0..<n}. add (start + real k * time_delta) time_delta =
                     start + real (Suc k) * time_delta)"

subsection \<open>The addition of binary64\<close>

text \<open>
  A binary64 number has a significand of 53 bits; a sum is the exact sum rounded to the
  nearest such number, to the one with an even significand when two are equally near.
  For \<open>x \<noteq> 0\<close>, \<open>binade x\<close> is the exponent \<open>e\<close> with \<open>2^e \<le> |x| < 2^(e+1)\<close>, and the
  representable numbers near \<open>x\<close> are the multiples of \<open>ulp x\<close>, which is \<open>2^(e-52)\<close>, and
  \<open>2^(-1074)\<close> in the subnormal range. Sums beyond the largest finite number are not
  modelled.
\<close>

definition pow2 :: "int \<Rightarrow> real" where
  "pow2 k = (if 0 \<le> k then 2 ^ nat k else 1 / 2 ^ nat (- k))"

definition binade :: "real \<Rightarrow> int" where
  "binade x = (if 1 \<le> \<bar>x\<bar> then bitlen \<lfloor>\<bar>x\<bar>\<rfloor> - 1 else - bitlen (\<lceil>1 / \<bar>x\<bar>\<rceil> - 1))"

definition ulp :: "real \<Rightarrow> real" where
  "ulp x = pow2 (max (binade x) (- 1022) - 52)"

definition round_half_even :: "real \<Rightarrow> int" where
  "round_half_even y =
     (if y - of_int \<lfloor>y\<rfloor> < 1 / 2 then \<lfloor>y\<rfloor>
      else if 1 / 2 < y - of_int \<lfloor>y\<rfloor> then \<lfloor>y\<rfloor> + 1
      else if even \<lfloor>y\<rfloor> then \<lfloor>y\<rfloor> else \<lfloor>y\<rfloor> + 1)"

definition round_double :: "real \<Rightarrow> real" where
  "round_double x = (if x = 0 then 0 else ulp x * of_int (round_half_even (x / ulp x)))"

definition double_add :: add_t where
  "double_add x y = round_double (x + y)"

subsection \<open>A concrete stepper\<close>

text \<open>
  Modelled from the spec: the Euler stepper of stepper_euler.hpp, which is not among the
  sources. Its formula is \<open>x += \<Delta>t\<cdot>f(x,t)\<close>; the system is the linear one
  \<open>dx/dt = a\<cdot>x\<close>, given by its coefficient \<open>a\<close>, and the stepper keeps no data. The
  arithmetic on the state is that of the reals; it is exact on the values that the
  examples below reach.
\<close>

definition euler_do_step :: "(unit, real, real list) do_step_t" where
  "euler_do_step st a x t dt = (st, a, map (\<lambda>xi. xi + dt * (a * xi)) x)"

text \<open>The test system of the spec: \<open>dx/dt = -x\<close> from \<open>x0 = 1\<close>, nothing called yet.\<close>

definition decay :: "(unit, real, real list) refs" where
  "decay = \<lparr>stepper = (), system = - 1, state = [1], calls = []\<rparr>"

section \<open>Properties of the loop\<close>

subsection \<open>Unfolding the loop\<close>

lemma while_loop_exit:
  "\<not> start_time f < end_time \<Longrightarrow> while_loop add do_step end_time time_delta f = Some f"
  by (subst while_loop.simps) simp

lemma while_loop_step:
  "start_time f < end_time \<Longrightarrow>
   while_loop add do_step end_time time_delta f =
   while_loop add do_step end_time time_delta (loop_body add do_step time_delta f)"
  by (subst while_loop.simps) simp

lemma while_loop_funpow:
  "(\<And>k. k < n \<Longrightarrow> start_time ((loop_body add do_step time_delta ^^ k) f) < end_time) \<Longrightarrow>
   \<not> start_time ((loop_body add do_step time_delta ^^ n) f) < end_time \<Longrightarrow>
   while_loop add do_step end_time time_delta f = Some ((loop_body add do_step time_delta ^^ n) f)"
proof (induction n arbitrary: f)
  case 0
  then show ?case by (simp add: while_loop_exit)
next
  case (Suc n)
  let ?g = "loop_body add do_step time_delta f"
  have first: "start_time f < end_time"
    using Suc.prems(1) [of 0] by simp
  have inner: "start_time ((loop_body add do_step time_delta ^^ k) ?g) < end_time" if "k < n" for k
    using Suc.prems(1) [of "Suc k"] that by (simp add: funpow_swap1)
  have last: "\<not> start_time ((loop_body add do_step time_delta ^^ n) ?g) < end_time"
    using Suc.prems(2) by (simp add: funpow_swap1)
  have "while_loop add do_step end_time time_delta ?g = Some ((loop_body add do_step time_delta ^^ n) ?g)"
    using inner last by (rule Suc.IH)
  then show ?case
    using first by (simp add: while_loop_step funpow_swap1)
qed

text \<open>A loop that exits has run its body some number of times, with the guard true before each.\<close>

lemma while_loop_Some:
  assumes "while_loop add do_step end_time time_delta f = Some out"
  shows "\<exists>n. out = (loop_body add do_step time_delta ^^ n) f \<and>
             (\<forall>k<n. start_time ((loop_body add do_step time_delta ^^ k) f) < end_time) \<and>
             \<not> start_time out < end_time"
proof (rule while_loop.raw_induct [OF _ assms])
  fix w :: "add_t \<Rightarrow> ('a, 'b, 'c) do_step_t \<Rightarrow> real \<Rightarrow> real \<Rightarrow> ('a, 'b, 'c) frame \<Rightarrow> ('a, 'b, 'c) frame option"
  fix ad ds e dt g res
  assume IH: "\<And>ad ds e dt g res. w ad ds e dt g = Some res \<Longrightarrow>
     \<exists>n. res = (loop_body ad ds dt ^^ n) g \<and>
         (\<forall>k<n. start_time ((loop_body ad ds dt ^^ k) g) < e) \<and> \<not> start_time res < e"
  assume unfolded: "(if start_time g < e then w ad ds e dt (loop_body ad ds dt g) else Some g) = Some res"
  show "\<exists>n. res = (loop_body ad ds dt ^^ n) g \<and>
         (\<forall>k<n. start_time ((loop_body ad ds dt ^^ k) g) < e) \<and> \<not> start_time res < e"
  proof (cases "start_time g < e")
    case True
    with unfolded have "w ad ds e dt (loop_body ad ds dt g) = Some res"
      by simp
    from IH [OF this] obtain n where
      n: "res = (loop_body ad ds dt ^^ n) (loop_body ad ds dt g)"
         "\<forall>k<n. start_time ((loop_body ad ds dt ^^ k) (loop_body ad ds dt g)) < e"
         "\<not> start_time res < e"
      by blast
    have "start_time ((loop_body ad ds dt ^^ k) g) < e" if "k < Suc n" for k
    proof (cases k)
      case 0
      then show ?thesis using True by simp
    next
      case (Suc j)
      then show ?thesis using n(2) that by (simp add: funpow_swap1)
    qed
    moreover have "res = (loop_body ad ds dt ^^ Suc n) g"
      using n(1) by (simp add: funpow_swap1)
    ultimately show ?thesis using n(3) by blast
  next
    case False
    with unfolded have "res = g" by simp
    then show ?thesis using False by (intro exI [of _ 0]) simp
  qed
qed


subsection \<open>One step and one loop body\<close>

lemma integrate_one_step_time:
  "snd (integrate_one_step add do_step r t time_delta) = add t time_delta"
  by (simp add: integrate_one_step_def Let_def)

lemma integrate_one_step_calls:
  "calls (fst (integrate_one_step add do_step r t time_delta)) =
   calls r @ [Do_step (state r) t time_delta,
              Observe (state (fst (integrate_one_step add do_step r t time_delta))) t]"
  by (simp add: integrate_one_step_def Let_def call_do_step_def observer_def split: prod.splits)

lemma integrate_one_step_state:
  "state (fst (integrate_one_step add do_step r t time_delta)) =
   snd (snd (do_step (stepper r) (system r) (state r) t time_delta))"
  by (simp add: integrate_one_step_def Let_def call_do_step_def observer_def split: prod.splits)

lemma loop_body_start_time:
  "start_time (loop_body add do_step time_delta f) = add (start_time f) time_delta"
  by (simp add: loop_body_def integrate_one_step_def Let_def split: prod.splits)

lemma loop_body_iteration:
  "iteration (loop_body add do_step time_delta f) = iteration f + 1"
  by (simp add: loop_body_def split: prod.splits)

lemma loop_body_objects:
  "objects (loop_body add do_step time_delta f) =
   fst (integrate_one_step add do_step (objects f) (start_time f) time_delta)"
  by (simp add: loop_body_def split: prod.splits)

lemma funpow_iteration:
  "iteration ((loop_body add do_step time_delta ^^ n) f) = iteration f + of_nat n"
  by (induction n) (simp_all add: loop_body_iteration)

lemma funpow_calls:
  "\<exists>new. calls (objects ((loop_body add do_step time_delta ^^ n) f)) = calls (objects f) @ new \<and>
         length (observations new) = n \<and> length (do_steps new) = n \<and>
         (new = [] \<or> is_Do_step (hd new))"
proof (induction n arbitrary: f)
  case 0
  show ?case by simp
next
  case (Suc n)
  let ?g = "loop_body add do_step time_delta f"
  from Suc.IH [of ?g] obtain new where
    new: "calls (objects ((loop_body add do_step time_delta ^^ n) ?g)) = calls (objects ?g) @ new"
         "length (observations new) = n" "length (do_steps new) = n"
    by blast
  let ?x = "state (objects ?g)"
  let ?pair = "[Do_step (state (objects f)) (start_time f) time_delta, Observe ?x (start_time f)]"
  have "calls (objects ?g) = calls (objects f) @ ?pair"
    by (simp add: loop_body_objects integrate_one_step_calls)
  with new(1) have "calls (objects ((loop_body add do_step time_delta ^^ Suc n) f)) =
      calls (objects f) @ (?pair @ new)"
    by (simp add: funpow_swap1)
  moreover have "length (observations (?pair @ new)) = Suc n"
    using new(2) by simp
  moreover have "length (do_steps (?pair @ new)) = Suc n"
    using new(3) by simp
  moreover have "is_Do_step (hd (?pair @ new))"
    by simp
  ultimately show ?case by blast
qed


lemma observations_append: "observations (es @ es') = observations es @ observations es'"
  by (induction es rule: observations.induct) simp_all

lemma do_steps_append: "do_steps (es @ es') = do_steps es @ do_steps es'"
  by (induction es rule: do_steps.induct) simp_all

lemma issued_append: "calls r' = calls r @ new \<Longrightarrow> issued r r' = new"
  by (simp add: issued_def)

lemma observer_calls_eq: "calls (observer t r) = calls r @ [Observe (state r) t]"
  by (simp add: observer_def)

lemma observer_fields:
  "stepper (observer t r) = stepper r" "system (observer t r) = system r"
  "state (observer t r) = state r"
  by (simp_all add: observer_def)

lemma entry_fields:
  "objects (entry r start) = observer start r" "start_time (entry r start) = start"
  "iteration (entry r start) = 0"
  by (simp_all add: entry_def)

subsection \<open>The loop cut off after a number of iterations\<close>

lemma while_loop_upto_exit:
  "\<not> start_time f < end_time \<Longrightarrow> while_loop_upto add do_step end_time time_delta n f = f"
  by (cases n) simp_all

lemma while_loop_upto_funpow:
  "(\<And>k. k < n \<Longrightarrow> start_time ((loop_body add do_step time_delta ^^ k) f) < end_time) \<Longrightarrow>
   while_loop_upto add do_step end_time time_delta n f = (loop_body add do_step time_delta ^^ n) f"
proof (induction n arbitrary: f)
  case 0
  show ?case by simp
next
  case (Suc n)
  let ?g = "loop_body add do_step time_delta f"
  have first: "start_time f < end_time"
    using Suc.prems [of 0] by simp
  have "start_time ((loop_body add do_step time_delta ^^ k) ?g) < end_time" if "k < n" for k
    using Suc.prems [of "Suc k"] that by (simp add: funpow_swap1)
  then have "while_loop_upto add do_step end_time time_delta n ?g =
      (loop_body add do_step time_delta ^^ n) ?g"
    by (rule Suc.IH)
  then show ?case using first by (simp add: funpow_swap1)
qed

lemma while_loop_of_upto:
  "\<not> start_time (while_loop_upto add do_step end_time time_delta n f) < end_time \<Longrightarrow>
   while_loop add do_step end_time time_delta f =
   Some (while_loop_upto add do_step end_time time_delta n f)"
proof (induction n arbitrary: f)
  case 0
  then show ?case by (simp add: while_loop_exit)
next
  case (Suc n)
  show ?case
  proof (cases "start_time f < end_time")
    case True
    with Suc.prems have "\<not> start_time (while_loop_upto add do_step end_time time_delta n
        (loop_body add do_step time_delta f)) < end_time"
      by simp
    from Suc.IH [OF this] True show ?thesis
      by (simp add: while_loop_step)
  next
    case False
    then show ?thesis by (simp add: while_loop_exit)
  qed
qed

lemma while_loop_iff_upto:
  "while_loop add do_step end_time time_delta f = Some out \<longleftrightarrow>
   (\<exists>n. out = while_loop_upto add do_step end_time time_delta n f \<and>
        \<not> start_time out < end_time)"
proof
  assume "while_loop add do_step end_time time_delta f = Some out"
  from while_loop_Some [OF this] obtain n where
    n: "out = (loop_body add do_step time_delta ^^ n) f"
       "\<forall>k<n. start_time ((loop_body add do_step time_delta ^^ k) f) < end_time"
       "\<not> start_time out < end_time"
    by blast
  from n(2) have "while_loop_upto add do_step end_time time_delta n f =
      (loop_body add do_step time_delta ^^ n) f"
    by (intro while_loop_upto_funpow) simp
  with n(1) have "out = while_loop_upto add do_step end_time time_delta n f"
    by simp
  with n(3) show "\<exists>n. out = while_loop_upto add do_step end_time time_delta n f \<and>
        \<not> start_time out < end_time"
    by blast
next
  assume "\<exists>n. out = while_loop_upto add do_step end_time time_delta n f \<and>
        \<not> start_time out < end_time"
  then obtain n where "out = while_loop_upto add do_step end_time time_delta n f"
    and "\<not> start_time out < end_time"
    by blast
  then show "while_loop add do_step end_time time_delta f = Some out"
    using while_loop_of_upto [of add do_step end_time time_delta n f] by simp
qed

text \<open>
  What holds at every point of the loop: the calls made since the loop was entered are
  pairs of a \<open>do_step\<close> call and an observer call, the counter has been incremented once
  per pair, and every step was begun at a time below \<open>end_time\<close>, with the increment
  \<open>time_delta\<close>.
\<close>

lemma while_loop_upto_calls:
  "\<exists>new. calls (objects (while_loop_upto add do_step end_time time_delta n f)) =
           calls (objects f) @ new \<and>
         length (observations new) = length (do_steps new) \<and>
         (new = [] \<or> is_Do_step (hd new)) \<and>
         iteration (while_loop_upto add do_step end_time time_delta n f) =
           iteration f + of_nat (length (do_steps new)) \<and>
         (\<forall>s \<in> set (do_steps new). fst (snd s) < end_time \<and> snd (snd s) = time_delta) \<and>
         (\<forall>k. repeat_one_step add do_step end_time time_delta n (objects f, start_time f, k) =
           (objects (while_loop_upto add do_step end_time time_delta n f),
            start_time (while_loop_upto add do_step end_time time_delta n f),
            k + length (do_steps new)))"
proof (induction n arbitrary: f)
  case 0
  show ?case by simp
next
  case (Suc n)
  show ?case
  proof (cases "start_time f < end_time")
    case False
    then show ?thesis by simp
  next
    case True
    let ?g = "loop_body add do_step time_delta f"
    let ?pair = "[Do_step (state (objects f)) (start_time f) time_delta,
                  Observe (state (objects ?g)) (start_time f)]"
    from Suc.IH [of ?g] obtain new where
      new: "calls (objects (while_loop_upto add do_step end_time time_delta n ?g)) =
              calls (objects ?g) @ new"
           "length (observations new) = length (do_steps new)"
           "iteration (while_loop_upto add do_step end_time time_delta n ?g) =
              iteration ?g + of_nat (length (do_steps new))"
           "\<forall>s \<in> set (do_steps new). fst (snd s) < end_time \<and> snd (snd s) = time_delta"
           "\<forall>k. repeat_one_step add do_step end_time time_delta n (objects ?g, start_time ?g, k) =
             (objects (while_loop_upto add do_step end_time time_delta n ?g),
              start_time (while_loop_upto add do_step end_time time_delta n ?g),
              k + length (do_steps new))"
      by blast
    have upto: "while_loop_upto add do_step end_time time_delta (Suc n) f =
        while_loop_upto add do_step end_time time_delta n ?g"
      using True by simp
    have pair: "calls (objects ?g) = calls (objects f) @ ?pair"
      by (simp add: loop_body_objects integrate_one_step_calls)
    have one_step: "integrate_one_step add do_step (objects f) (start_time f) time_delta =
        (objects ?g, start_time ?g)"
      by (simp add: loop_body_def split: prod.splits)
    have c1: "calls (objects (while_loop_upto add do_step end_time time_delta (Suc n) f)) =
        calls (objects f) @ (?pair @ new)"
      using new(1) pair upto by simp
    have c2: "length (observations (?pair @ new)) = length (do_steps (?pair @ new))"
      using new(2) by simp
    have c3: "is_Do_step (hd (?pair @ new))"
      by simp
    have c4: "iteration (while_loop_upto add do_step end_time time_delta (Suc n) f) =
        iteration f + of_nat (length (do_steps (?pair @ new)))"
      using new(3) upto by (simp add: loop_body_iteration)
    have c5: "\<forall>s \<in> set (do_steps (?pair @ new)). fst (snd s) < end_time \<and> snd (snd s) = time_delta"
      using new(4) True by simp
    have c6: "repeat_one_step add do_step end_time time_delta (Suc n) (objects f, start_time f, k) =
        (objects (while_loop_upto add do_step end_time time_delta (Suc n) f),
         start_time (while_loop_upto add do_step end_time time_delta (Suc n) f),
         k + length (do_steps (?pair @ new)))" for k
      using new(5) True one_step by simp
    from c1 c2 c3 c4 c5 c6 show ?thesis by blast
  qed
qed

lemma while_loop_upto_entry:
  "\<exists>new. issued r (objects (while_loop_upto add do_step end_time time_delta n (entry r start))) =
           Observe (state r) start # new \<and>
         length (observations new) = length (do_steps new) \<and>
         (new = [] \<or> is_Do_step (hd new)) \<and>
         iteration (while_loop_upto add do_step end_time time_delta n (entry r start)) =
           of_nat (length (do_steps new)) \<and>
         (\<forall>s \<in> set (do_steps new). fst (snd s) < end_time \<and> snd (snd s) = time_delta) \<and>
         repeat_one_step add do_step end_time time_delta n (observer start r, start, 0) =
           (objects (while_loop_upto add do_step end_time time_delta n (entry r start)),
            start_time (while_loop_upto add do_step end_time time_delta n (entry r start)),
            length (do_steps new))"
proof -
  let ?F = "while_loop_upto add do_step end_time time_delta n (entry r start)"
  from while_loop_upto_calls [of add do_step end_time time_delta n "entry r start"]
  obtain new where
    new: "calls (objects ?F) = calls (objects (entry r start)) @ new"
         "length (observations new) = length (do_steps new)"
         "new = [] \<or> is_Do_step (hd new)"
         "iteration ?F = iteration (entry r start) + of_nat (length (do_steps new))"
         "\<forall>s \<in> set (do_steps new). fst (snd s) < end_time \<and> snd (snd s) = time_delta"
         "\<forall>k. repeat_one_step add do_step end_time time_delta n
               (objects (entry r start), start_time (entry r start), k) =
             (objects ?F, start_time ?F, k + length (do_steps new))"
    by blast
  from new(1) have "calls (objects ?F) = calls r @ (Observe (state r) start # new)"
    by (simp add: entry_fields observer_calls_eq)
  then have "issued r (objects ?F) = Observe (state r) start # new"
    by (rule issued_append)
  moreover have "iteration ?F = of_nat (length (do_steps new))"
    using new(4) by (simp add: entry_fields)
  moreover have "repeat_one_step add do_step end_time time_delta n (observer start r, start, 0) =
      (objects ?F, start_time ?F, length (do_steps new))"
    using new(6) [rule_format, of 0] by (simp add: entry_fields)
  ultimately show ?thesis using new(2,3,5) by blast
qed

subsection \<open>Runs whose sums are exact\<close>

lemma funpow_time_exact:
  assumes "exact_sums add (start_time f) time_delta n" and "k \<le> n"
  shows "start_time ((loop_body add do_step time_delta ^^ k) f) =
         start_time f + real k * time_delta"
  using assms(2)
proof (induction k)
  case 0
  show ?case by simp
next
  case (Suc k)
  then have "start_time ((loop_body add do_step time_delta ^^ k) f) =
      start_time f + real k * time_delta"
    by simp
  moreover have "add (start_time f + real k * time_delta) time_delta =
      start_time f + real (Suc k) * time_delta"
    using assms(1) Suc.prems by (simp add: exact_sums_def)
  ultimately show ?case
    by (simp add: loop_body_start_time)
qed

lemma while_loop_exact:
  assumes "0 < time_delta"
    and "exact_sums add (start_time f) time_delta
           (nat \<lceil>(end_time - start_time f) / time_delta\<rceil>)"
  shows "while_loop add do_step end_time time_delta f =
         Some ((loop_body add do_step time_delta ^^
                  nat \<lceil>(end_time - start_time f) / time_delta\<rceil>) f)"
proof (rule while_loop_funpow)
  let ?q = "(end_time - start_time f) / time_delta"
  fix k assume k: "k < nat \<lceil>?q\<rceil>"
  then have "int k < \<lceil>?q\<rceil>" by linarith
  then have "real k < ?q" by (simp add: less_ceiling_iff)
  then have "real k * time_delta < end_time - start_time f"
    using assms(1) by (simp add: pos_less_divide_eq)
  moreover have "start_time ((loop_body add do_step time_delta ^^ k) f) =
      start_time f + real k * time_delta"
    by (rule funpow_time_exact [OF assms(2) less_imp_le [OF k]])
  ultimately show "start_time ((loop_body add do_step time_delta ^^ k) f) < end_time"
    by simp
next
  let ?q = "(end_time - start_time f) / time_delta"
  have "?q \<le> real_of_int \<lceil>?q\<rceil>" by (rule le_of_int_ceiling)
  also have "\<dots> \<le> real (nat \<lceil>?q\<rceil>)" by simp
  finally have "end_time - start_time f \<le> real (nat \<lceil>?q\<rceil>) * time_delta"
    using assms(1) by (simp add: pos_divide_le_eq)
  moreover have "start_time ((loop_body add do_step time_delta ^^ nat \<lceil>?q\<rceil>) f) =
      start_time f + real (nat \<lceil>?q\<rceil>) * time_delta"
    by (rule funpow_time_exact [OF assms(2) order_refl])
  ultimately show "\<not> start_time ((loop_body add do_step time_delta ^^ nat \<lceil>?q\<rceil>) f) < end_time"
    by simp
qed

lemma integrate_const_exact:
  assumes "0 < time_delta"
    and "exact_sums add start time_delta (nat \<lceil>(end_time - start) / time_delta\<rceil>)"
  shows "integrate_const add do_step r start end_time time_delta =
         Some ((loop_body add do_step time_delta ^^ nat \<lceil>(end_time - start) / time_delta\<rceil>)
                 (entry r start))"
  using while_loop_exact [where f = "entry r start" and add = add and time_delta = time_delta
      and end_time = end_time and do_step = do_step] assms
  by (simp add: integrate_const_def entry_fields)

lemma funpow_issued:
  "\<exists>new. issued r (objects ((loop_body add do_step time_delta ^^ n) (entry r start))) =
           Observe (state r) start # new \<and>
         length (observations new) = n \<and> length (do_steps new) = n \<and>
         (new = [] \<or> is_Do_step (hd new))"
proof -
  from funpow_calls [where f = "entry r start" and n = n and do_step = do_step
      and time_delta = time_delta and add = add]
  obtain new where
    new: "calls (objects ((loop_body add do_step time_delta ^^ n) (entry r start))) =
            calls (objects (entry r start)) @ new"
         "length (observations new) = n" "length (do_steps new) = n"
         "new = [] \<or> is_Do_step (hd new)"
    by blast
  from new(1) have "calls (objects ((loop_body add do_step time_delta ^^ n) (entry r start))) =
      calls r @ (Observe (state r) start # new)"
    by (simp add: entry_fields observer_calls_eq)
  then have "issued r (objects ((loop_body add do_step time_delta ^^ n) (entry r start))) =
      Observe (state r) start # new"
    by (rule issued_append)
  with new(2-4) show ?thesis by blast
qed

subsection \<open>A loop that cannot exit\<close>

lemma funpow_time_absorbed:
  "add (start_time f) time_delta = start_time f \<Longrightarrow>
   start_time ((loop_body add do_step time_delta ^^ n) f) = start_time f"
  by (induction n) (simp_all add: loop_body_start_time)

lemma while_loop_diverges:
  assumes "add (start_time f) time_delta = start_time f" and "start_time f < end_time"
  shows "while_loop add do_step end_time time_delta f = None"
proof (rule ccontr)
  assume "while_loop add do_step end_time time_delta f \<noteq> None"
  then obtain out where "while_loop add do_step end_time time_delta f = Some out"
    by blast
  from while_loop_Some [OF this] obtain n where
    "out = (loop_body add do_step time_delta ^^ n) f" and "\<not> start_time out < end_time"
    by blast
  then show False
    using assms by (simp add: funpow_time_absorbed)
qed

subsection \<open>Rounding to binary64\<close>

lemma round_half_even_of_int: "round_half_even (of_int m) = m"
  by (simp add: round_half_even_def)

lemma pow2_neg: "pow2 (- int k) = 1 / 2 ^ k"
  by (simp add: pow2_def)

text \<open>The integers below \<open>2^53\<close> are binary64 numbers: rounding leaves them as they are.\<close>

lemma round_double_of_int:
  assumes "1 \<le> i" and "i < 2 ^ 53"
  shows "round_double (of_int i) = of_int i"
proof -
  have pos: "0 < i" using assms(1) by simp
  let ?b = "bitlen i"
  from bitlen_bounds [OF pos] have lo: "2 ^ nat (?b - 1) \<le> i" and hi: "i < 2 ^ nat ?b"
    by simp_all
  have b1: "1 \<le> ?b"
    using pos bitlen_eq_zero_iff [of i] bitlen_nonneg [of i] by linarith
  have below: "(2::int) ^ nat (?b - 1) < 2 ^ 53"
    using lo assms(2) by linarith
  have "nat (?b - 1) < 53"
  proof (rule power_less_imp_less_exp)
    show "1 < (2::int)" by simp
    show "(2::int) ^ nat (?b - 1) < 2 ^ 53" by (rule below)
  qed
  then have b53: "?b \<le> 53" by linarith
  define k where "k = nat (53 - ?b)"
  have k: "?b - 53 = - int k"
    using b53 by (simp add: k_def)
  have "binade (of_int i) = ?b - 1"
    using assms(1) by (simp add: binade_def)
  then have "ulp (of_int i) = pow2 (?b - 53)"
    using b1 by (simp add: ulp_def max_def)
  then have u: "ulp (of_int i) = 1 / 2 ^ k"
    by (simp only: k pow2_neg)
  have "of_int i / ulp (of_int i) = (of_int (i * 2 ^ k) :: real)"
    by (simp add: u)
  then have "round_half_even (of_int i / ulp (of_int i)) = i * 2 ^ k"
    by (simp only: round_half_even_of_int)
  then have "ulp (of_int i) * of_int (round_half_even (of_int i / ulp (of_int i))) = of_int i"
    by (simp add: u)
  moreover have "(of_int i :: real) \<noteq> 0" using pos by simp
  ultimately show ?thesis
    by (simp only: round_double_def if_False)
qed

lemma double_add_Suc:
  assumes "k < 2 ^ 53 - 1"
  shows "double_add (real k) 1 = real (Suc k)"
proof -
  have "real k + 1 = real_of_int (int k + 1)" by simp
  moreover have "round_double (real_of_int (int k + 1)) = real_of_int (int k + 1)"
    using assms by (intro round_double_of_int) simp_all
  ultimately show ?thesis
    by (simp add: double_add_def)
qed

lemma exact_sums_counting:
  assumes "n < 2 ^ 53"
  shows "exact_sums double_add 0 1 n"
  unfolding exact_sums_def
proof
  fix k assume "k \<in> {0..<n}"
  then have "k < 2 ^ 53 - 1" using assms by simp
  then have "double_add (real k) 1 = real (Suc k)" by (rule double_add_Suc)
  then show "double_add (0 + real k * 1) 1 = 0 + real (Suc k) * 1" by simp
qed

text \<open>Values of the rounded addition that the examples below use.\<close>

lemma double_add_values:
  "double_add 0 0 = 0"
  "double_add 0 (1/2) = 1/2"
  "double_add 0 (3/4) = 3/4"
  "double_add (3/4) (3/4) = 3/2"
  "double_add 9007199254740992 (3/2) = 9007199254740994"
  "double_add 9007199254740992 1 = 9007199254740992"
  by (simp_all add: double_add_def round_double_def ulp_def binade_def round_half_even_def
      pow2_def compute_bitlen)

text \<open>
  An increment that rounding absorbs: from \<open>2^53\<close> the sum with 1 is \<open>2^53\<close> again, and
  a run towards \<open>2^53 + 4\<close> with the positive increment 1 never returns.
\<close>

lemma absorbed_step_never_returns:
  "integrate_const double_add euler_do_step decay 9007199254740992 9007199254740996 1 = None"
  by (simp add: integrate_const_def while_loop_diverges entry_fields double_add_values)

lemma exact_sums_three_quarters: "exact_sums double_add 0 (3/4) 2"
proof -
  have "{0..<2::nat} = {0, 1}" by auto
  then show ?thesis
    by (simp add: exact_sums_def double_add_values)
qed

lemma four_thirds_not_Ints: "(4/3::real) \<notin> \<int>"
proof
  assume "(4/3::real) \<in> \<int>"
  then obtain k :: int where "(4/3::real) = of_int k" by (rule Ints_cases)
  then have "real_of_int (3 * k) = real_of_int 4" by simp
  then have "3 * k = 4" by (simp only: of_int_eq_iff)
  then show False by presburger
qed


section \<open>The claims\<close>

text \<open>
  C1 (the code departs from the claim). The claim: integrate_one_step invokes the
  observer exactly once, with the post-step state paired with the post-step time, the
  pre-step time plus time_delta. The code calls the observer before \<open>time += time_delta\<close>:
  on the Euler stepper and \<open>dx/dt = -x\<close>, from state 1 at time 0 with increment 1/2, the
  single observer call receives the post-step state 1/2 with the pre-step time 0, while
  the time after the step is 1/2.
\<close>

theorem integrate_one_step_observes_stale_time:
  "observations (issued decay (fst (integrate_one_step double_add euler_do_step decay 0 (1/2)))) =
     [([1/2], 0)] \<and>
   snd (integrate_one_step double_add euler_do_step decay 0 (1/2)) = 1/2"
  by (simp add: integrate_one_step_def Let_def call_do_step_def observer_def issued_def
      euler_do_step_def decay_def double_add_values)

text \<open>
  C2, as stated, fails: the final time of integrate_const may exceed end_time. From 0 to 1
  with increment 3/4 the loop leaves the time at 3/2.
\<close>

theorem final_time_exceeds_end_time:
  "map_option start_time (integrate_const double_add euler_do_step decay 0 1 (3/4)) = Some (3/2) \<and>
   \<not> (3/2 \<le> (1::real))"
proof -
  have "integrate_const double_add euler_do_step decay 0 1 (3/4) =
      Some ((loop_body double_add euler_do_step (3/4) ^^ 2) (entry decay 0))"
    using integrate_const_exact [where add = double_add and start = 0 and end_time = 1
        and time_delta = "3/4" and do_step = euler_do_step and r = decay]
      exact_sums_three_quarters
    by simp
  moreover have "start_time ((loop_body double_add euler_do_step (3/4) ^^ 2) (entry decay 0)) = 3/2"
    using funpow_time_exact [where add = double_add and f = "entry decay 0" and n = 2 and k = 2
        and time_delta = "3/4" and do_step = euler_do_step] exact_sums_three_quarters
    by (simp add: entry_fields)
  ultimately show ?thesis by simp
qed

text \<open>
  C2 (amended). After every step the time equals the sum of the time before the step and
  time_delta as the time type computes it, for integrate_one_step and for each iteration
  of integrate_const. The time is not kept within end_time: at every point of a run of
  integrate_const, every step made so far began at a time strictly below end_time, with
  the increment time_delta, and a run that returns does so with a time that is not below
  end_time.
\<close>

theorem time_after_steps:
  "snd (integrate_one_step add do_step r t time_delta) = add t time_delta \<and>
   start_time (loop_body add do_step time_delta f) = add (start_time f) time_delta \<and>
   (\<forall>(x, t', d) \<in> set (do_steps (issued r (objects
        (while_loop_upto add do_step end_time time_delta n (entry r start))))).
      t' < end_time \<and> d = time_delta) \<and>
   (integrate_const add do_step r start end_time time_delta = Some g \<longrightarrow>
      end_time \<le> start_time g)"
proof (intro conjI impI)
  show "snd (integrate_one_step add do_step r t time_delta) = add t time_delta"
    by (rule integrate_one_step_time)
  show "start_time (loop_body add do_step time_delta f) = add (start_time f) time_delta"
    by (rule loop_body_start_time)
next
  from while_loop_upto_entry [of r add do_step end_time time_delta n start]
  obtain new where
    "issued r (objects (while_loop_upto add do_step end_time time_delta n (entry r start))) =
       Observe (state r) start # new"
    and "\<forall>s \<in> set (do_steps new). fst (snd s) < end_time \<and> snd (snd s) = time_delta"
    by blast
  then show "\<forall>(x, t', d) \<in> set (do_steps (issued r (objects
        (while_loop_upto add do_step end_time time_delta n (entry r start))))).
      t' < end_time \<and> d = time_delta"
    by auto
next
  assume "integrate_const add do_step r start end_time time_delta = Some g"
  then have "while_loop add do_step end_time time_delta (entry r start) = Some g"
    by (simp add: integrate_const_def)
  from while_loop_Some [OF this] show "end_time \<le> start_time g"
    by auto
qed

theorem time_after_steps_witness:
  "snd (integrate_one_step double_add euler_do_step decay 0 (3/4)) = 3/4 \<and>
   integrate_const double_add euler_do_step decay 0 1 (3/4) =
     Some ((loop_body double_add euler_do_step (3/4) ^^ 2) (entry decay 0)) \<and>
   1 \<le> start_time ((loop_body double_add euler_do_step (3/4) ^^ 2) (entry decay 0))"
proof -
  have run: "integrate_const double_add euler_do_step decay 0 1 (3/4) =
      Some ((loop_body double_add euler_do_step (3/4) ^^ 2) (entry decay 0))"
    using integrate_const_exact [where add = double_add and start = 0 and end_time = 1
        and time_delta = "3/4" and do_step = euler_do_step and r = decay]
      exact_sums_three_quarters
    by simp
  with time_after_steps [where add = double_add and do_step = euler_do_step and r = decay
      and t = 0 and time_delta = "3/4" and start = 0 and end_time = 1
      and g = "(loop_body double_add euler_do_step (3/4) ^^ 2) (entry decay 0)"]
  show ?thesis by (simp add: double_add_values)
qed

text \<open>
  C3, as stated, fails where the time type rounds: from \<open>2^53\<close> to \<open>2^53 + 2\<close> with
  increment 3/2, the interval is not an integer multiple of the increment, the sum
  \<open>2^53 + 3/2\<close> rounds to \<open>2^53 + 2\<close>, and the loop exits with the time equal to end_time.
\<close>

theorem rounded_sum_lands_on_end_time:
  "(9007199254740992::real) < 9007199254740994 \<and> (0::real) < 3/2 \<and>
   (9007199254740994 - 9007199254740992) / (3/2) \<notin> (\<int> :: real set) \<and>
   map_option start_time
     (integrate_const double_add euler_do_step decay 9007199254740992 9007199254740994 (3/2)) =
   Some 9007199254740994"
proof -
  let ?f = "entry decay 9007199254740992"
  have "while_loop double_add euler_do_step 9007199254740994 (3/2) ?f =
      Some ((loop_body double_add euler_do_step (3/2) ^^ 1) ?f)"
    by (rule while_loop_funpow)
      (simp_all add: entry_fields loop_body_start_time double_add_values)
  then have "map_option start_time
     (integrate_const double_add euler_do_step decay 9007199254740992 9007199254740994 (3/2)) =
     Some 9007199254740994"
    by (simp add: integrate_const_def entry_fields loop_body_start_time double_add_values)
  moreover have "(9007199254740994 - 9007199254740992) / (3/2) = (4/3::real)"
    by simp
  ultimately show ?thesis
    using four_thirds_not_Ints by simp
qed

text \<open>
  C3 (amended). integrate_const does not clamp its final step: for start_time < end_time
  and time_delta > 0 such that end_time - start_time is not an integer multiple of
  time_delta, and such that the time type computes the sums start_time + k * time_delta
  of the run exactly, the loop finishes, and the time after it is strictly greater than
  end_time.
\<close>

theorem integrate_const_overshoots:
  assumes "start < end_time" and "0 < time_delta"
    and "(end_time - start) / time_delta \<notin> \<int>"
    and "exact_sums add start time_delta (nat \<lceil>(end_time - start) / time_delta\<rceil>)"
  shows "\<exists>f. integrate_const add do_step r start end_time time_delta = Some f \<and>
             end_time < start_time f"
proof -
  let ?q = "(end_time - start) / time_delta"
  let ?g = "(loop_body add do_step time_delta ^^ nat \<lceil>?q\<rceil>) (entry r start)"
  have run: "integrate_const add do_step r start end_time time_delta = Some ?g"
    using assms(2,4) by (rule integrate_const_exact)
  have "0 < ?q" using assms(1,2) by simp
  then have "0 < \<lceil>?q\<rceil>" by simp
  then have n: "real (nat \<lceil>?q\<rceil>) = real_of_int \<lceil>?q\<rceil>" by simp
  have "start_time ?g = start_time (entry r start) + real (nat \<lceil>?q\<rceil>) * time_delta"
    using assms(4) by (intro funpow_time_exact [OF _ order_refl]) (simp add: entry_fields)
  then have time: "start_time ?g = start + real_of_int \<lceil>?q\<rceil> * time_delta"
    by (simp only: n entry_fields)
  have "real_of_int \<lceil>?q\<rceil> \<noteq> ?q"
  proof
    assume "real_of_int \<lceil>?q\<rceil> = ?q"
    then have "?q \<in> \<int>" by (metis Ints_of_int)
    with assms(3) show False by simp
  qed
  moreover have "?q \<le> real_of_int \<lceil>?q\<rceil>" by (rule le_of_int_ceiling)
  ultimately have "?q < real_of_int \<lceil>?q\<rceil>" by linarith
  then have "end_time - start < real_of_int \<lceil>?q\<rceil> * time_delta"
    using pos_divide_less_eq [OF assms(2), of "end_time - start" "real_of_int \<lceil>?q\<rceil>"] by blast
  then have "end_time < start_time ?g"
    using time by simp
  with run show ?thesis by blast
qed

theorem integrate_const_overshoots_witness:
  "(0::real) < 1 \<and> (0::real) < 3/4 \<and> (1 - 0) / (3/4) \<notin> (\<int> :: real set) \<and>
   exact_sums double_add 0 (3/4) (nat \<lceil>(1 - 0) / (3/4 :: real)\<rceil>) \<and>
   (\<exists>f. integrate_const double_add euler_do_step decay 0 1 (3/4) = Some f \<and> 1 < start_time f)"
proof -
  have q: "(1 - 0) / (3/4) = (4/3::real)" by simp
  have n: "nat \<lceil>(1 - 0) / (3/4 :: real)\<rceil> = 2" by simp
  have a: "(1 - 0) / (3/4) \<notin> (\<int> :: real set)"
    unfolding q by (rule four_thirds_not_Ints)
  have b: "exact_sums double_add 0 (3/4) (nat \<lceil>(1 - 0) / (3/4 :: real)\<rceil>)"
    unfolding n by (rule exact_sums_three_quarters)
  have "(0::real) < 1" and "(0::real) < 3/4" by simp_all
  from integrate_const_overshoots [OF this a b, of euler_do_step decay] a b
  show ?thesis by simp
qed

text \<open>
  C4, as stated, fails where the time type rounds: from \<open>2^53\<close> to \<open>2^53 + 2\<close> with
  increment 3/2 the first sum rounds to end_time, the loop makes one step, and the
  observer has been invoked twice, where 1 + ceil((end_time - start_time) / time_delta)
  is 3.
\<close>

theorem rounded_sum_saves_an_observation:
  "(9007199254740992::real) < 9007199254740994 \<and> (0::real) < 3/2 \<and>
   map_option (observer_calls decay)
     (integrate_const double_add euler_do_step decay 9007199254740992 9007199254740994 (3/2)) =
   Some 2 \<and>
   1 + nat \<lceil>(9007199254740994 - 9007199254740992) / (3/2 :: real)\<rceil> = 3"
proof -
  let ?f = "entry decay 9007199254740992"
  let ?g = "(loop_body double_add euler_do_step (3/2) ^^ 1) ?f"
  have "while_loop double_add euler_do_step 9007199254740994 (3/2) ?f = Some ?g"
    by (rule while_loop_funpow)
      (simp_all add: entry_fields loop_body_start_time double_add_values)
  then have run: "integrate_const double_add euler_do_step decay 9007199254740992
      9007199254740994 (3/2) = Some ?g"
    by (simp add: integrate_const_def)
  from funpow_issued [where r = decay and start = 9007199254740992 and n = 1
      and do_step = euler_do_step and time_delta = "3/2" and add = double_add]
  have "observer_calls decay ?g = 2"
    by (auto simp: observer_calls_def)
  with run show ?thesis by simp
qed

text \<open>
  C4 (amended). At every point of a run of integrate_const the observer has been invoked
  once more than do_step: once on entry and once after each step. For
  start_time < end_time and time_delta > 0 such that the time type computes the sums
  start_time + k * time_delta of the run exactly, integrate_const returns and has invoked
  the observer exactly 1 + ceil((end_time - start_time) / time_delta) times.
\<close>

theorem integrate_const_observer_count:
  "observer_calls r (while_loop_upto add do_step end_time time_delta n (entry r start)) =
     1 + do_step_calls r (while_loop_upto add do_step end_time time_delta n (entry r start)) \<and>
   (start < end_time \<longrightarrow> 0 < time_delta \<longrightarrow>
    exact_sums add start time_delta (nat \<lceil>(end_time - start) / time_delta\<rceil>) \<longrightarrow>
    (\<exists>f. integrate_const add do_step r start end_time time_delta = Some f \<and>
         observer_calls r f = 1 + nat \<lceil>(end_time - start) / time_delta\<rceil>))"
proof (intro conjI impI)
  from while_loop_upto_entry [of r add do_step end_time time_delta n start]
  obtain new where
    "issued r (objects (while_loop_upto add do_step end_time time_delta n (entry r start))) =
       Observe (state r) start # new"
    and "length (observations new) = length (do_steps new)"
    by blast
  then show "observer_calls r (while_loop_upto add do_step end_time time_delta n (entry r start)) =
     1 + do_step_calls r (while_loop_upto add do_step end_time time_delta n (entry r start))"
    by (simp add: observer_calls_def do_step_calls_def)
next
  assume pos: "0 < time_delta"
    and exact: "exact_sums add start time_delta (nat \<lceil>(end_time - start) / time_delta\<rceil>)"
  let ?n = "nat \<lceil>(end_time - start) / time_delta\<rceil>"
  let ?g = "(loop_body add do_step time_delta ^^ ?n) (entry r start)"
  have run: "integrate_const add do_step r start end_time time_delta = Some ?g"
    using pos exact by (rule integrate_const_exact)
  from funpow_issued [where r = r and start = start and n = ?n and do_step = do_step
      and time_delta = time_delta and add = add]
  obtain new where "issued r (objects ?g) = Observe (state r) start # new"
    and "length (observations new) = ?n"
    by blast
  then have "observer_calls r ?g = 1 + ?n"
    by (simp add: observer_calls_def)
  with run show "\<exists>f. integrate_const add do_step r start end_time time_delta = Some f \<and>
         observer_calls r f = 1 + nat \<lceil>(end_time - start) / time_delta\<rceil>"
    by blast
qed

theorem integrate_const_observer_count_witness:
  "(0::real) < 1 \<and> (0::real) < 3/4 \<and>
   exact_sums double_add 0 (3/4) (nat \<lceil>(1 - 0) / (3/4 :: real)\<rceil>) \<and>
   (\<exists>f. integrate_const double_add euler_do_step decay 0 1 (3/4) = Some f \<and>
        observer_calls decay f = 3)"
proof -
  have n: "nat \<lceil>(1 - 0) / (3/4 :: real)\<rceil> = 2" by simp
  have b: "exact_sums double_add 0 (3/4) (nat \<lceil>(1 - 0) / (3/4 :: real)\<rceil>)"
    unfolding n by (rule exact_sums_three_quarters)
  with integrate_const_observer_count [where start = 0 and end_time = 1 and time_delta = "3/4"
      and do_step = euler_do_step and r = decay and add = double_add]
  show ?thesis by (simp add: numeral_3_eq_3)
qed

text \<open>
  C5, as stated, fails: the value integrate_const returns is not always the number of
  do_step invocations. The counter is an unsigned: from 0 to 4294967296 with increment 1
  the run performs 4294967296 steps and returns 0.
\<close>

theorem returned_count_wraps:
  "map_option iteration (integrate_const double_add euler_do_step decay 0 4294967296 1) = Some 0 \<and>
   map_option (do_step_calls decay) (integrate_const double_add euler_do_step decay 0 4294967296 1) =
     Some 4294967296"
proof -
  let ?g = "(loop_body double_add euler_do_step 1 ^^ 4294967296) (entry decay 0)"
  have "exact_sums double_add 0 1 4294967296"
    by (rule exact_sums_counting) simp
  then have run: "integrate_const double_add euler_do_step decay 0 4294967296 1 = Some ?g"
    using integrate_const_exact [where time_delta = 1 and start = 0 and add = double_add
        and end_time = 4294967296 and do_step = euler_do_step and r = decay]
    by simp
  have "iteration ?g = 0"
    by (simp add: funpow_iteration entry_fields)
  moreover from funpow_issued [where r = decay and start = 0 and n = 4294967296
      and do_step = euler_do_step and time_delta = 1 and add = double_add]
  have "do_step_calls decay ?g = 4294967296"
    by (auto simp: do_step_calls_def)
  ultimately show ?thesis using run by simp
qed

text \<open>
  C5 (amended). integrate_one_step performs exactly one do_step (the function is void and
  returns no count). At every point of a run of integrate_const the counter holds the
  number of do_step invocations made so far modulo 2^32. The call returns at the first
  point where the time is not below end_time, and the value returned is the number of
  do_step invocations of the run modulo 2^32, hence that number itself below 2^32 steps.
\<close>

theorem integrate_const_returns_count_mod:
  "length (do_steps (issued r (fst (integrate_one_step add do_step r t time_delta)))) = 1 \<and>
   unat (iteration (while_loop_upto add do_step end_time time_delta n (entry r start))) =
     do_step_calls r (while_loop_upto add do_step end_time time_delta n (entry r start))
       mod 2 ^ 32 \<and>
   (\<not> start_time (while_loop_upto add do_step end_time time_delta n (entry r start)) < end_time
      \<longrightarrow> integrate_const add do_step r start end_time time_delta =
            Some (while_loop_upto add do_step end_time time_delta n (entry r start))) \<and>
   (integrate_const add do_step r start end_time time_delta = Some f \<longrightarrow>
      unat (iteration f) = do_step_calls r f mod 2 ^ 32)"
proof -
  have count: "unat (iteration (while_loop_upto add do_step end_time time_delta m (entry r start))) =
     do_step_calls r (while_loop_upto add do_step end_time time_delta m (entry r start))
       mod 2 ^ 32" for m
  proof -
    from while_loop_upto_entry [of r add do_step end_time time_delta m start]
    obtain new where
      "issued r (objects (while_loop_upto add do_step end_time time_delta m (entry r start))) =
         Observe (state r) start # new"
      and "iteration (while_loop_upto add do_step end_time time_delta m (entry r start)) =
         of_nat (length (do_steps new))"
      by blast
    then show ?thesis
      by (simp add: do_step_calls_def unat_of_nat)
  qed
  have one: "length (do_steps (issued r (fst (integrate_one_step add do_step r t time_delta)))) = 1"
  proof -
    have "issued r (fst (integrate_one_step add do_step r t time_delta)) =
        [Do_step (state r) t time_delta,
         Observe (state (fst (integrate_one_step add do_step r t time_delta))) t]"
      by (rule issued_append) (rule integrate_one_step_calls)
    then show ?thesis by simp
  qed
  have returns: "integrate_const add do_step r start end_time time_delta =
      Some (while_loop_upto add do_step end_time time_delta n (entry r start))"
    if "\<not> start_time (while_loop_upto add do_step end_time time_delta n (entry r start)) < end_time"
    using while_loop_of_upto [OF that] by (simp add: integrate_const_def)
  have returned: "unat (iteration f) = do_step_calls r f mod 2 ^ 32"
    if "integrate_const add do_step r start end_time time_delta = Some f"
  proof -
    from that have "while_loop add do_step end_time time_delta (entry r start) = Some f"
      by (simp add: integrate_const_def)
    then obtain m where "f = while_loop_upto add do_step end_time time_delta m (entry r start)"
      unfolding while_loop_iff_upto by blast
    then show ?thesis using count [of m] by simp
  qed
  from one count [of n] returns returned show ?thesis by blast
qed

theorem integrate_const_returns_count_mod_witness:
  "\<not> start_time (while_loop_upto double_add euler_do_step 1 (3/4) 2 (entry decay 0)) < 1 \<and>
   integrate_const double_add euler_do_step decay 0 1 (3/4) =
     Some (while_loop_upto double_add euler_do_step 1 (3/4) 2 (entry decay 0)) \<and>
   unat (iteration (while_loop_upto double_add euler_do_step 1 (3/4) 2 (entry decay 0))) =
     do_step_calls decay (while_loop_upto double_add euler_do_step 1 (3/4) 2 (entry decay 0))
       mod 2 ^ 32"
proof -
  have "\<not> start_time (while_loop_upto double_add euler_do_step 1 (3/4) 2 (entry decay 0)) < 1"
    by (simp add: numeral_2_eq_2 entry_fields loop_body_start_time double_add_values)
  with integrate_const_returns_count_mod [where add = double_add and do_step = euler_do_step
      and r = decay and start = 0 and end_time = 1 and time_delta = "3/4" and n = 2
      and f = "while_loop_upto double_add euler_do_step 1 (3/4) 2 (entry decay 0)"]
  show ?thesis by blast
qed

text \<open>
  C6. integrate_const invokes the observer exactly once, with the initial state and
  start_time, before any stepping, and then repeatedly calls integrate_one_step while
  the time is below end_time: at every point of a run, the referenced objects (with the
  log of every call made) and the time are what n guarded calls of integrate_one_step
  give after that one observer call, the counter is the number of those calls, and the
  only call before the first do_step is the initial observer call. The run returns
  exactly the first such point at which the time is not below end_time.
\<close>

theorem integrate_const_observes_then_loops:
  "issued r (observer start r) = [Observe (state r) start] \<and>
   repeat_one_step add do_step end_time time_delta n (observer start r, start, 0) =
     (objects (while_loop_upto add do_step end_time time_delta n (entry r start)),
      start_time (while_loop_upto add do_step end_time time_delta n (entry r start)),
      do_step_calls r (while_loop_upto add do_step end_time time_delta n (entry r start))) \<and>
   iteration (while_loop_upto add do_step end_time time_delta n (entry r start)) =
     of_nat (do_step_calls r (while_loop_upto add do_step end_time time_delta n (entry r start))) \<and>
   observations (before_stepping (issued r (objects
     (while_loop_upto add do_step end_time time_delta n (entry r start))))) = [(state r, start)] \<and>
   (integrate_const add do_step r start end_time time_delta = Some f \<longleftrightarrow>
      (\<exists>k. f = while_loop_upto add do_step end_time time_delta k (entry r start) \<and>
           \<not> start_time f < end_time))"
proof -
  let ?F = "while_loop_upto add do_step end_time time_delta n (entry r start)"
  from while_loop_upto_entry [of r add do_step end_time time_delta n start]
  obtain new where
    new: "issued r (objects ?F) = Observe (state r) start # new"
         "new = [] \<or> is_Do_step (hd new)"
         "iteration ?F = of_nat (length (do_steps new))"
         "repeat_one_step add do_step end_time time_delta n (observer start r, start, 0) =
            (objects ?F, start_time ?F, length (do_steps new))"
    by blast
  have steps: "do_step_calls r ?F = length (do_steps new)"
    by (simp add: do_step_calls_def new(1))
  have "takeWhile is_Observe new = []"
  proof (cases new)
    case Nil
    then show ?thesis by simp
  next
    case (Cons e es)
    with new(2) have "is_Do_step e" by simp
    then have "\<not> is_Observe e" by (cases e) simp_all
    with Cons show ?thesis by simp
  qed
  then have before: "observations (before_stepping (issued r (objects ?F))) = [(state r, start)]"
    by (simp add: before_stepping_def new(1))
  have first: "issued r (observer start r) = [Observe (state r) start]"
    by (rule issued_append) (rule observer_calls_eq)
  have returns: "integrate_const add do_step r start end_time time_delta = Some f \<longleftrightarrow>
      (\<exists>k. f = while_loop_upto add do_step end_time time_delta k (entry r start) \<and>
           \<not> start_time f < end_time)"
    unfolding integrate_const_def by (rule while_loop_iff_upto)
  have repeated: "repeat_one_step add do_step end_time time_delta n (observer start r, start, 0) =
      (objects ?F, start_time ?F, do_step_calls r ?F)"
    using new(4) by (simp only: steps)
  have counter: "iteration ?F = of_nat (do_step_calls r ?F)"
    using new(3) by (simp only: steps)
  from first repeated counter before returns show ?thesis
    by blast
qed

theorem integrate_const_observes_then_loops_witness:
  "integrate_const double_add euler_do_step decay 0 1 (3/4) =
     Some (while_loop_upto double_add euler_do_step 1 (3/4) 2 (entry decay 0)) \<and>
   repeat_one_step double_add euler_do_step 1 (3/4) 2 (observer 0 decay, 0, 0) =
     (\<lparr>stepper = (), system = - 1, state = [1/16],
       calls = [Observe [1] 0, Do_step [1] 0 (3/4), Observe [1/4] 0,
                Do_step [1/4] (3/4) (3/4), Observe [1/16] (3/4)]\<rparr>, 3/2, 2)"
proof -
  have exits: "\<not> start_time (while_loop_upto double_add euler_do_step 1 (3/4) 2 (entry decay 0)) < 1"
    by (simp add: numeral_2_eq_2 entry_fields loop_body_start_time double_add_values)
  have run: "integrate_const double_add euler_do_step decay 0 1 (3/4) =
     Some (while_loop_upto double_add euler_do_step 1 (3/4) 2 (entry decay 0))"
    using integrate_const_observes_then_loops [where add = double_add
        and do_step = euler_do_step and r = decay and start = 0 and end_time = 1
        and time_delta = "3/4" and n = 2
        and f = "while_loop_upto double_add euler_do_step 1 (3/4) 2 (entry decay 0)"] exits
    by blast
  have "repeat_one_step double_add euler_do_step 1 (3/4) 2 (observer 0 decay, 0, 0) =
     (\<lparr>stepper = (), system = - 1, state = [1/16],
       calls = [Observe [1] 0, Do_step [1] 0 (3/4), Observe [1/4] 0,
                Do_step [1/4] (3/4) (3/4), Observe [1/16] (3/4)]\<rparr>, 3/2, 2)"
    by (simp add: numeral_2_eq_2 integrate_one_step_def Let_def call_do_step_def observer_def
        euler_do_step_def decay_def double_add_values)
  with run show ?thesis by simp
qed







text \<open>
  C10. Whenever start_time >= end_time, integrate_const returns 0, makes no call of
  do_step, leaves the stepper, the system and the state unchanged, and invokes the
  observer exactly once, with the initial state and start_time.
\<close>

theorem integrate_const_empty_interval:
  assumes "end_time \<le> start"
  shows "integrate_const add do_step r start end_time time_delta =
           Some \<lparr>objects = observer start r, start_time = start, iteration = 0\<rparr> \<and>
         do_steps (issued r (observer start r)) = [] \<and>
         stepper (observer start r) = stepper r \<and>
         system (observer start r) = system r \<and>
         state (observer start r) = state r \<and>
         observations (issued r (observer start r)) = [(state r, start)]"
proof -
  have "integrate_const add do_step r start end_time time_delta =
      Some \<lparr>objects = observer start r, start_time = start, iteration = 0\<rparr>"
    using assms by (simp add: integrate_const_def while_loop_exit entry_def)
  moreover have "issued r (observer start r) = [Observe (state r) start]"
    by (rule issued_append) (rule observer_calls_eq)
  ultimately show ?thesis
    by (simp add: observer_fields)
qed

theorem integrate_const_empty_interval_witness:
  "(1::real) \<le> 1 \<and>
   integrate_const double_add euler_do_step decay 1 1 (1/2) =
     Some \<lparr>objects = \<lparr>stepper = (), system = - 1, state = [1], calls = [Observe [1] 1]\<rparr>,
           start_time = 1, iteration = 0\<rparr>"
  using integrate_const_empty_interval [where start = 1 and end_time = 1 and time_delta = "1/2"
      and do_step = euler_do_step and r = decay and add = double_add]
  by (simp add: observer_def decay_def)

end
